theory Spec2Isabelle
  imports Main "HOL-Library.Multiset"
begin

section \<open>Exceptions\<close>

text \<open>
  The exceptions that the code of \<^verbatim>\<open>mthreading.py\<close> can meet. \<open>Empty\<close> is
  \<^verbatim>\<open>queue.Empty\<close>; the others are the built-in exceptions of the same name.
\<close>

datatype error = Empty | ValueError | TypeError | AttributeError | RuntimeError

section \<open>The task channel: \<^verbatim>\<open>queue.Queue\<close>\<close>

text \<open>
  \<^verbatim>\<open>queue.Queue\<close> belongs to the Python standard library. The model keeps the three
  attributes that the operations used by \<^verbatim>\<open>mthreading.py\<close> read and write: the bound
  \<^verbatim>\<open>maxsize\<close>, the items waiting in the queue, oldest first, and the counter
  \<^verbatim>\<open>unfinished_tasks\<close>. Every operation runs under the lock of the queue, so each one is
  a single atomic step.
\<close>

record 'j pyqueue =
  maxsize :: int
  pending :: "'j list"
  unfinished_tasks :: nat

definition Queue :: "int \<Rightarrow> 'j pyqueue" where
  "Queue m = \<lparr>maxsize = m, pending = [], unfinished_tasks = 0\<rparr>"

text \<open>\<^verbatim>\<open>Queue.full\<close>: \<^verbatim>\<open>0 < self.maxsize <= self._qsize()\<close>.\<close>

definition full :: "'j pyqueue \<Rightarrow> bool" where
  "full q = (0 < maxsize q \<and> maxsize q \<le> int (length (pending q)))"

text \<open>
  \<^verbatim>\<open>Queue.put(item)\<close> with the default \<^verbatim>\<open>block=True, timeout=None\<close>: while the queue is
  full the caller waits; otherwise the item goes to the end and \<^verbatim>\<open>unfinished_tasks\<close>
  grows by one. \<open>None\<close> says that the caller is blocked in the given state.
\<close>

definition Queue_put :: "'j pyqueue \<Rightarrow> 'j \<Rightarrow> 'j pyqueue option" where
  "Queue_put q x =
     (if full q then None
      else Some (q\<lparr>pending := pending q @ [x], unfinished_tasks := Suc (unfinished_tasks q)\<rparr>))"

text \<open>
  \<^verbatim>\<open>Queue.get(timeout=t)\<close> at the moment the call ends: a negative timeout raises
  \<^verbatim>\<open>ValueError\<close>; an item that is there is taken from the front; with no item, the wait
  has run out and \<^verbatim>\<open>queue.Empty\<close> is raised.
\<close>

definition Queue_get :: "'j pyqueue \<Rightarrow> int \<Rightarrow> error + 'j \<times> 'j pyqueue" where
  "Queue_get q t =
     (if t < 0 then Inl ValueError
      else case pending q of
             [] \<Rightarrow> Inl Empty
           | x # xs \<Rightarrow> Inr (x, q\<lparr>pending := xs\<rparr>))"

text \<open>\<^verbatim>\<open>Queue.task_done\<close>: one task fewer is unfinished; called too often it raises.\<close>

definition Queue_task_done :: "'j pyqueue \<Rightarrow> error + 'j pyqueue" where
  "Queue_task_done q =
     (if unfinished_tasks q = 0 then Inl ValueError
      else Inr (q\<lparr>unfinished_tasks := unfinished_tasks q - 1\<rparr>))"

text \<open>\<^verbatim>\<open>Queue.join\<close> returns once \<^verbatim>\<open>unfinished_tasks\<close> is zero and waits until then.\<close>

definition Queue_join :: "'j pyqueue \<Rightarrow> bool" where
  "Queue_join q = (unfinished_tasks q = 0)"

section \<open>Worker\<close>

text \<open>
  Where a worker thread stands in \<^verbatim>\<open>Worker.run\<close>: \<open>Running\<close> is inside
  \<^verbatim>\<open>self.tasks.get\<close>, \<open>Executing j\<close> is inside the call of the job \<open>j\<close> it took,
  \<open>Stopped\<close> is after the \<^verbatim>\<open>break\<close>, and \<open>Killed\<close> is a thread ended by an exception
  that \<^verbatim>\<open>run\<close> does not catch.
\<close>

datatype 'j phase = Running | Executing 'j | Stopped | Killed

record 'j worker =
  timeout :: int
  phase :: "'j phase"

text \<open>\<^verbatim>\<open>Worker.__init__\<close> stores the timeout and starts the thread.\<close>

definition Worker :: "int \<Rightarrow> 'j worker" where
  "Worker timeout_seconds = \<lparr>timeout = timeout_seconds, phase = Running\<rparr>"

text \<open>
  What the call \<^verbatim>\<open>func(*args, **kargs)\<close> of a job does when it ends: it returns, it
  raises an instance of \<^verbatim>\<open>Exception\<close>, or it raises a \<^verbatim>\<open>BaseException\<close> that is no
  \<^verbatim>\<open>Exception\<close> (\<^verbatim>\<open>SystemExit\<close>, \<^verbatim>\<open>KeyboardInterrupt\<close>, \<^verbatim>\<open>GeneratorExit\<close>).
\<close>

datatype call_result = Returns | RaisesException | RaisesBaseException

text \<open>
  First half of the loop body (lines 32 to 36): the \<^verbatim>\<open>get\<close> ends. \<^verbatim>\<open>queue.Empty\<close> leaves
  the loop; any other exception ends the thread.
\<close>

definition run_get :: "'j worker \<Rightarrow> 'j pyqueue \<Rightarrow> 'j worker \<times> 'j pyqueue" where
  "run_get w q =
     (case Queue_get q (timeout w) of
        Inl e \<Rightarrow> (if e = Empty then (w\<lparr>phase := Stopped\<rparr>, q) else (w\<lparr>phase := Killed\<rparr>, q))
      | Inr (j, q') \<Rightarrow> (w\<lparr>phase := Executing j\<rparr>, q'))"

text \<open>
  Second half of the loop body (lines 37 to 42): the call of job \<open>j\<close> ends with \<open>r\<close>.
  An \<^verbatim>\<open>Exception\<close> is caught and \<^verbatim>\<open>traceback.print_exc()\<close> writes its trace to the
  error stream, here the list of the jobs whose trace was printed; then
  \<^verbatim>\<open>task_done\<close> is called and the loop starts again. Anything else that is raised
  ends the thread before \<^verbatim>\<open>task_done\<close>.
\<close>

definition run_call ::
  "call_result \<Rightarrow> 'j \<Rightarrow> 'j worker \<Rightarrow> 'j pyqueue \<Rightarrow> 'j list \<Rightarrow> 'j worker \<times> 'j pyqueue \<times> 'j list"
where
  "run_call r j w q err =
     (if r = RaisesBaseException then (w\<lparr>phase := Killed\<rparr>, q, err)
      else let err' = (if r = RaisesException then err @ [j] else err)
           in case Queue_task_done q of
                Inl e \<Rightarrow> (w\<lparr>phase := Killed\<rparr>, q, err')
              | Inr q' \<Rightarrow> (w\<lparr>phase := Running\<rparr>, q', err'))"

section \<open>ThreadPool\<close>

record 'j thread_pool =
  tasks :: "'j pyqueue"
  workers :: "'j worker list"

text \<open>
  \<^verbatim>\<open>ThreadPool.__init__\<close>: a queue bounded by \<^verbatim>\<open>num_threads\<close> and one worker for each
  element of \<^verbatim>\<open>range(num_threads)\<close>, which is empty when \<^verbatim>\<open>num_threads\<close> is not positive.
\<close>

definition ThreadPool :: "int \<Rightarrow> int \<Rightarrow> 'j thread_pool" where
  "ThreadPool num_threads timeout_seconds =
     \<lparr>tasks = Queue num_threads,
      workers = replicate (nat num_threads) (Worker timeout_seconds)\<rparr>"

text \<open>\<^verbatim>\<open>add_task\<close> puts the job; \<open>None\<close> when the put blocks.\<close>

definition add_task :: "'j thread_pool \<Rightarrow> 'j \<Rightarrow> 'j thread_pool option" where
  "add_task p j =
     (case Queue_put (tasks p) j of
        None \<Rightarrow> None
      | Some q \<Rightarrow> Some (p\<lparr>tasks := q\<rparr>))"

text \<open>\<^verbatim>\<open>wait_completion\<close> returns when \<^verbatim>\<open>self.tasks.join()\<close> does.\<close>

definition wait_completion :: "'j thread_pool \<Rightarrow> bool" where
  "wait_completion p = Queue_join (tasks p)"

section \<open>NewsPool\<close>

text \<open>
  The class \<^verbatim>\<open>Configuration\<close> lives in another module; \<^verbatim>\<open>mthreading.py\<close> reads two
  integers of it. The configuration is an argument of the constructor below.
\<close>

record configuration =
  thread_timeout_seconds :: int
  max_number_threads :: int

text \<open>
  A job of the orchestrator is a bound method of a source or of an article.
\<close>

datatype ('p, 'a) job = download_articles 'p | download 'a | parse 'a

text \<open>
  The fields of a \<^verbatim>\<open>NewsPool\<close>. \<^verbatim>\<open>join\<close> tests \<^verbatim>\<open>articles\<close> and \<^verbatim>\<open>pool\<close> against
  \<^verbatim>\<open>None\<close>, so both are options.
\<close>

record ('p, 'a) news_pool =
  papers :: "'p list"
  articles :: "'a list option"
  pool :: "('p, 'a) job thread_pool option"
  config :: configuration

definition NewsPool :: "configuration \<Rightarrow> ('p, 'a) news_pool" where
  "NewsPool cfg = \<lparr>papers = [], articles = Some [], pool = None, config = cfg\<rparr>"

text \<open>
  How a call of a method ends for its caller: it returns, it raises, or it is
  blocked in the state given.
\<close>

datatype completion = Returned | Raised error | Blocked

text \<open>
  The loops of \<^verbatim>\<open>set_papers\<close> and \<^verbatim>\<open>set_articles\<close> call \<^verbatim>\<open>self.pool.add_task\<close> for
  one job after the other. Here the main thread runs alone: no worker has taken a
  job yet, which is when a bounded queue is fullest. The runs in which workers take
  jobs between two puts are those of the section on interleaved steps.
\<close>

fun add_tasks :: "('p, 'a) news_pool \<Rightarrow> ('p, 'a) job list \<Rightarrow> completion \<times> ('p, 'a) news_pool" where
  "add_tasks self [] = (Returned, self)"
| "add_tasks self (j # js) =
     (case pool self of
        None \<Rightarrow> (Raised AttributeError, self)
      | Some p \<Rightarrow>
          (case add_task p j of
             None \<Rightarrow> (Blocked, self)
           | Some p' \<Rightarrow> add_tasks (self\<lparr>pool := Some p'\<rparr>) js))"

definition set_papers ::
  "('p, 'a) news_pool \<Rightarrow> 'p list \<Rightarrow> int \<Rightarrow> completion \<times> ('p, 'a) news_pool"
where
  "set_papers self paper_list threads_per_source =
     (let self1 = self\<lparr>papers := paper_list\<rparr>;
          num_threads = threads_per_source * int (length (papers self1));
          timeout = thread_timeout_seconds (config self1);
          self2 = self1\<lparr>pool := Some (ThreadPool num_threads timeout)\<rparr>
      in add_tasks self2 (map download_articles (papers self2)))"

text \<open>
  Line 115 compares the list \<^verbatim>\<open>self.articles\<close> with the integer
  \<^verbatim>\<open>max_number_threads\<close> and takes \<^verbatim>\<open>len\<close> of the result. Python 3 orders no list
  against an integer: \<^verbatim>\<open><=\<close> raises \<^verbatim>\<open>TypeError\<close>. A \<^verbatim>\<open>bool\<close> has no length either.
\<close>

definition list_le_int :: "'a list \<Rightarrow> int \<Rightarrow> error + bool" where
  "list_le_int xs m = Inl TypeError"

definition len_bool :: "bool \<Rightarrow> error + nat" where
  "len_bool b = Inl TypeError"

definition set_articles ::
  "('p, 'a) news_pool \<Rightarrow> 'a list \<Rightarrow> completion \<times> ('p, 'a) news_pool"
where
  "set_articles self article_list =
     (let self1 = self\<lparr>articles := Some article_list\<rparr>;
          timeout = thread_timeout_seconds (config self1)
      in case list_le_int article_list (max_number_threads (config self1)) of
           Inl e \<Rightarrow> (Raised e, self1)
         | Inr b \<Rightarrow>
             (case len_bool b of
                Inl e \<Rightarrow> (Raised e, self1)
              | Inr n \<Rightarrow>
                  (let num_threads = (if n \<noteq> 0 then int (length article_list)
                                      else max_number_threads (config self1));
                       self2 = self1\<lparr>pool := Some (ThreadPool num_threads timeout)\<rparr>
                   in add_tasks self2 (concat (map (\<lambda>a. [download a, parse a]) article_list)))))"

text \<open>
  \<^verbatim>\<open>join\<close>. The second component is what the call prints. A bare \<^verbatim>\<open>raise\<close> with no
  exception being handled raises \<^verbatim>\<open>RuntimeError\<close>; \<^verbatim>\<open>self.pool.wait_completion\<close> on
  \<^verbatim>\<open>None\<close> raises \<^verbatim>\<open>AttributeError\<close>.
\<close>

definition misuse_message :: string where
  "misuse_message =
     ''Call set_papers(..) or set_articles(...) with a list of source objects before .join(..)''"

definition join :: "('p, 'a) news_pool \<Rightarrow> completion \<times> string list \<times> ('p, 'a) news_pool" where
  "join self =
     (if pool self = None \<and> articles self = None
      then (Raised RuntimeError, [misuse_message], self)
      else case pool self of
             None \<Rightarrow> (Raised AttributeError, [], self)
           | Some p \<Rightarrow>
               (if wait_completion p
                then (Returned, [], self\<lparr>papers := [], articles := Some [], pool := None\<rparr>)
                else (Blocked, [], self)))"

section \<open>The pool at work: interleaved steps\<close>

text \<open>
  The main thread and the workers share only the queue, and each queue operation is
  atomic. A run of the pool is therefore a sequence of events, one for each operation
  that ends:
  \<^item> \<open>Put\<close>: the next \<^verbatim>\<open>add_task\<close> of the main thread puts its job;
  \<^item> \<open>Poll i\<close>: the \<^verbatim>\<open>self.tasks.get\<close> of worker \<open>i\<close> ends, with a job or without;
  \<^item> \<open>Finish i r\<close>: the job that worker \<open>i\<close> is calling ends with \<open>r\<close>, and the worker
    goes on to \<^verbatim>\<open>task_done\<close>;
  \<^item> \<open>Join\<close>: \<^verbatim>\<open>wait_completion\<close>, called by the main thread after its last
    \<^verbatim>\<open>add_task\<close>, returns.
  An event that cannot happen in a state (a put into a full queue, a join while tasks
  are unfinished, a step of a thread that has ended) has no successor: the thread
  waits, and the state stays as it is.
\<close>

datatype event = Put | Poll nat | Finish nat call_result | Join

text \<open>
  The state of a run: the pool, the jobs that the main thread has still to submit,
  whether \<^verbatim>\<open>wait_completion\<close> has returned, and the error stream. The last three
  fields are history, kept to state properties: the jobs put so far, the jobs taken by
  workers so far, and the jobs whose call has ended by returning or by an exception
  that the worker caught, each in the order of the events.
\<close>

record 'j system =
  tpool :: "'j thread_pool"
  todo :: "'j list"
  joined :: bool
  traces :: "'j list"
  submitted :: "'j list"
  dequeued :: "'j list"
  completed :: "'j list"

definition start :: "'j thread_pool \<Rightarrow> 'j list \<Rightarrow> 'j system" where
  "start p js =
     \<lparr>tpool = p, todo = js, joined = False, traces = [],
      submitted = [], dequeued = [], completed = []\<rparr>"

fun taken :: "'j phase \<Rightarrow> 'j list" where
  "taken (Executing j) = [j]"
| "taken _ = []"

fun step :: "event \<Rightarrow> 'j system \<Rightarrow> 'j system option" where
  "step Put s =
     (case todo s of
        [] \<Rightarrow> None
      | j # js \<Rightarrow>
          (case add_task (tpool s) j of
             None \<Rightarrow> None
           | Some p \<Rightarrow> Some (s\<lparr>tpool := p, todo := js, submitted := submitted s @ [j]\<rparr>)))"
| "step Join s =
     (if todo s = [] \<and> \<not> joined s \<and> wait_completion (tpool s)
      then Some (s\<lparr>joined := True\<rparr>) else None)"
| "step (Poll i) s =
     (if i < length (workers (tpool s)) then
        (case phase (workers (tpool s) ! i) of
           Running \<Rightarrow>
             (case run_get (workers (tpool s) ! i) (tasks (tpool s)) of
                (w, q) \<Rightarrow>
                  Some (s\<lparr>tpool := \<lparr>tasks = q, workers = (workers (tpool s))[i := w]\<rparr>,
                          dequeued := dequeued s @ taken (phase w)\<rparr>))
         | _ \<Rightarrow> None)
      else None)"
| "step (Finish i r) s =
     (if i < length (workers (tpool s)) then
        (case phase (workers (tpool s) ! i) of
           Executing j \<Rightarrow>
             (case run_call r j (workers (tpool s) ! i) (tasks (tpool s)) (traces s) of
                (w, q, err) \<Rightarrow>
                  Some (s\<lparr>tpool := \<lparr>tasks = q, workers = (workers (tpool s))[i := w]\<rparr>,
                          traces := err,
                          completed := completed s @ (if r = RaisesBaseException then [] else [j])\<rparr>))
         | _ \<Rightarrow> None)
      else None)"

fun exec :: "event list \<Rightarrow> 'j system \<Rightarrow> 'j system option" where
  "exec [] s = Some s"
| "exec (e # es) s = (case step e s of None \<Rightarrow> None | Some s' \<Rightarrow> exec es s')"

text \<open>The jobs that workers are calling at the moment.\<close>

fun in_flight :: "'j worker list \<Rightarrow> 'j multiset" where
  "in_flight [] = {#}"
| "in_flight (w # ws) = mset (taken (phase w)) + in_flight ws"

text \<open>
  What the counters and the history of a run have to do with each other: the jobs
  taken and the jobs waiting are the jobs put, in their order; the jobs whose call has
  ended and the jobs being called are among the jobs taken; \<^verbatim>\<open>unfinished_tasks\<close>
  counts the jobs put whose call has not ended; once \<^verbatim>\<open>wait_completion\<close> has returned
  there is nothing left to submit and nothing unfinished; a trace is printed only for
  a job whose call has ended.
\<close>

definition consistent :: "'j system \<Rightarrow> bool" where
  "consistent s =
     (dequeued s @ pending (tasks (tpool s)) = submitted s
      \<and> mset (completed s) + in_flight (workers (tpool s)) \<subseteq># mset (dequeued s)
      \<and> unfinished_tasks (tasks (tpool s)) + length (completed s) = length (submitted s)
      \<and> (joined s \<longrightarrow> todo s = [] \<and> unfinished_tasks (tasks (tpool s)) = 0)
      \<and> mset (traces s) \<subseteq># mset (completed s))"

text \<open>The shape of a pool made by \<^verbatim>\<open>ThreadPool(n, t)\<close>, at any time of its run.\<close>

definition within_bound :: "int \<Rightarrow> 'j system \<Rightarrow> bool" where
  "within_bound n s =
     (maxsize (tasks (tpool s)) = n
      \<and> length (workers (tpool s)) = nat n
      \<and> (0 < n \<longrightarrow> int (length (pending (tasks (tpool s)))) \<le> n))"

section \<open>Submitting a batch\<close>

lemmas evals = start_def ThreadPool_def Queue_def Worker_def add_task_def Queue_put_def full_def
  run_get_def Queue_get_def run_call_def Queue_task_done_def wait_completion_def Queue_join_def
  numeral_2_eq_2 numeral_3_eq_3

text \<open>
  A queue that is unbounded, or that has room for all the jobs, takes them all: the
  loop returns, and the jobs wait in the order of the loop.
\<close>

lemma add_tasks_fits:
  "pool self = Some p \<Longrightarrow>
   maxsize (tasks p) \<le> 0 \<or> int (length (pending (tasks p)) + length js) \<le> maxsize (tasks p) \<Longrightarrow>
   add_tasks self js =
     (Returned,
      self\<lparr>pool := Some (p\<lparr>tasks := (tasks p)\<lparr>pending := pending (tasks p) @ js,
                unfinished_tasks := unfinished_tasks (tasks p) + length js\<rparr>\<rparr>)\<rparr>)"
proof (induction js arbitrary: self p)
  case Nil
  then show ?case by simp
next
  case (Cons j js)
  have nf: "\<not> full (tasks p)"
    using Cons.prems(2) by (auto simp: full_def)
  let ?q = "(tasks p)\<lparr>pending := pending (tasks p) @ [j],
                        unfinished_tasks := Suc (unfinished_tasks (tasks p))\<rparr>"
  let ?p = "p\<lparr>tasks := ?q\<rparr>"
  have at: "add_task p j = Some ?p"
    using nf by (simp add: add_task_def Queue_put_def)
  have "add_tasks (self\<lparr>pool := Some ?p\<rparr>) js =
          (Returned,
           (self\<lparr>pool := Some ?p\<rparr>)\<lparr>pool := Some (?p\<lparr>tasks := (tasks ?p)\<lparr>pending := pending (tasks ?p) @ js,
              unfinished_tasks := unfinished_tasks (tasks ?p) + length js\<rparr>\<rparr>)\<rparr>)"
    by (rule Cons.IH) (use Cons.prems(2) in auto)
  then show ?case
    using Cons.prems(1) at by simp
qed

text \<open>
  \<^verbatim>\<open>set_papers\<close> in full, for any sign of \<^verbatim>\<open>threads_per_source\<close>: the queue is bounded
  by \<open>k * N\<close>, which leaves room for the \<open>N\<close> jobs when \<open>k\<close> is positive and means no bound
  otherwise, and \<^verbatim>\<open>range(k * N)\<close> gives \<open>nat (k * N)\<close> workers.
\<close>

lemma set_papers_eq:
  "set_papers self ps k =
     (Returned,
      self\<lparr>papers := ps,
           pool := Some \<lparr>tasks = \<lparr>maxsize = k * int (length ps),
                                   pending = map download_articles ps,
                                   unfinished_tasks = length ps\<rparr>,
                          workers = replicate (nat (k * int (length ps)))
                                      (Worker (thread_timeout_seconds (config self)))\<rparr>\<rparr>)"
proof -
  let ?n = "k * int (length ps)"
  let ?p = "ThreadPool ?n (thread_timeout_seconds (config self)) :: ('a, 'b) job thread_pool"
  let ?js = "map download_articles ps :: ('a, 'b) job list"
  let ?self2 = "self\<lparr>papers := ps, pool := Some ?p\<rparr>"
  have cap: "maxsize (tasks ?p) \<le> 0 \<or> int (length (pending (tasks ?p)) + length ?js) \<le> maxsize (tasks ?p)"
  proof (cases "k \<le> 0")
    case True
    then have "?n \<le> 0" by (simp add: mult_le_0_iff)
    then show ?thesis by (simp add: ThreadPool_def Queue_def)
  next
    case False
    then have "1 \<le> k" by simp
    then have "1 * int (length ps) \<le> ?n" by (intro mult_right_mono) simp_all
    then show ?thesis by (simp add: ThreadPool_def Queue_def)
  qed
  have "add_tasks ?self2 ?js =
          (Returned,
           ?self2\<lparr>pool := Some (?p\<lparr>tasks := (tasks ?p)\<lparr>pending := pending (tasks ?p) @ ?js,
              unfinished_tasks := unfinished_tasks (tasks ?p) + length ?js\<rparr>\<rparr>)\<rparr>)"
    by (rule add_tasks_fits [OF _ cap]) simp
  then show ?thesis
    by (simp add: set_papers_def Let_def ThreadPool_def Queue_def)
qed

text \<open>
  With a negative \<^verbatim>\<open>threads_per_source\<close> the jobs are submitted all the same, and no
  worker exists to take them.
\<close>

lemma set_papers_negative:
  "k < 0 \<Longrightarrow> map_option workers (pool (snd (set_papers self ps k))) = Some []"
  by (simp add: set_papers_eq mult_le_0_iff)

text \<open>
  Claim C3. For a list of \<open>N\<close> sources and \<open>k\<close> threads per source, \<^verbatim>\<open>set_papers\<close>
  returns with a pool of exactly \<open>k * N\<close> workers, all started with the configured
  timeout, and with exactly \<open>N\<close> jobs submitted: the \<^verbatim>\<open>download_articles\<close> of each
  source, in the order of the list. A number of threads is not negative.
\<close>

theorem set_papers_pool:
  assumes "0 \<le> k"
  shows "fst (set_papers self ps k) = Returned
         \<and> papers (snd (set_papers self ps k)) = ps
         \<and> map_option (int \<circ> length \<circ> workers) (pool (snd (set_papers self ps k)))
             = Some (k * int (length ps))
         \<and> map_option workers (pool (snd (set_papers self ps k)))
             = Some (replicate (nat (k * int (length ps))) (Worker (thread_timeout_seconds (config self))))
         \<and> map_option (pending \<circ> tasks) (pool (snd (set_papers self ps k)))
             = Some (map download_articles ps)
         \<and> map_option (unfinished_tasks \<circ> tasks) (pool (snd (set_papers self ps k)))
             = Some (length ps)"
proof -
  have "0 \<le> k * int (length ps)"
    using assms by simp
  then show ?thesis
    by (simp add: set_papers_eq)
qed

text \<open>Three sources with two threads each: six workers, three jobs.\<close>

theorem set_papers_pool_witness:
  "(0 :: int) \<le> 2
   \<and> fst (set_papers (NewsPool \<lparr>thread_timeout_seconds = 5, max_number_threads = 10\<rparr> :: (nat, nat) news_pool)
            [1, 2, 3] 2) = Returned
   \<and> map_option (int \<circ> length \<circ> workers)
        (pool (snd (set_papers (NewsPool \<lparr>thread_timeout_seconds = 5, max_number_threads = 10\<rparr> :: (nat, nat) news_pool)
            [1, 2, 3] 2))) = Some 6
   \<and> map_option (pending \<circ> tasks)
        (pool (snd (set_papers (NewsPool \<lparr>thread_timeout_seconds = 5, max_number_threads = 10\<rparr> :: (nat, nat) news_pool)
            [1, 2, 3] 2))) = Some [download_articles 1, download_articles 2, download_articles 3]"
proof -
  have h: "(0 :: int) \<le> 2" by simp
  from set_papers_pool [OF h, of "NewsPool \<lparr>thread_timeout_seconds = 5, max_number_threads = 10\<rparr> :: (nat, nat) news_pool" "[1, 2, 3]"]
  show ?thesis by simp
qed

text \<open>\<^verbatim>\<open>set_articles\<close> ends at line 115, whatever the list and the ceiling are.\<close>

lemma set_articles_raises:
  "set_articles self xs = (Raised TypeError, self\<lparr>articles := Some xs\<rparr>)"
  by (simp add: set_articles_def list_le_int_def)

text \<open>
  Claim C1 says that \<^verbatim>\<open>set_articles\<close> makes a pool of \<open>min(M, ceiling)\<close> workers and
  submits \<open>2M\<close> jobs. The code does neither: for three articles and a ceiling of ten it
  raises \<^verbatim>\<open>TypeError\<close> when it compares the list with the ceiling, after it has stored
  the list; no pool exists and no job has been submitted.
\<close>

theorem set_articles_type_error:
  "set_articles (NewsPool \<lparr>thread_timeout_seconds = 1, max_number_threads = 10\<rparr> :: (nat, nat) news_pool)
       [1, 2, 3] =
     (Raised TypeError,
      \<lparr>papers = [], articles = Some [1, 2, 3], pool = None,
        config = \<lparr>thread_timeout_seconds = 1, max_number_threads = 10\<rparr>\<rparr>)"
  by (simp add: set_articles_def list_le_int_def NewsPool_def)

section \<open>Joining a batch\<close>

text \<open>
  Claim C2 says that \<^verbatim>\<open>join\<close> on an orchestrator with no active batch reports the
  misuse and raises. On a fresh \<^verbatim>\<open>NewsPool\<close> the guard of line 94 is false, because
  \<^verbatim>\<open>articles\<close> is the empty list and not \<^verbatim>\<open>None\<close>: nothing is printed, and the
  error that reaches the caller is the \<^verbatim>\<open>AttributeError\<close> of
  \<^verbatim>\<open>self.pool.wait_completion\<close> on \<^verbatim>\<open>None\<close>. The call does not block.
\<close>

theorem join_fresh_attribute_error:
  "join (NewsPool cfg) = (Raised AttributeError, [], NewsPool cfg)"
  by (simp add: join_def NewsPool_def)

text \<open>
  The state that \<^verbatim>\<open>join\<close> leaves behind is the state of a fresh \<^verbatim>\<open>NewsPool\<close>, so the
  same holds for a \<^verbatim>\<open>join\<close> that follows a \<^verbatim>\<open>join\<close>.
\<close>

lemma join_after_join:
  "join self = (Returned, out, self') \<Longrightarrow> self' = NewsPool (config self)"
  by (auto simp: join_def NewsPool_def split: if_splits option.splits)

text \<open>
  Claim C8. With an active batch, that is with a pool \<open>p\<close>, \<^verbatim>\<open>join\<close> waits in
  \<^verbatim>\<open>wait_completion\<close> as long as a task of \<open>p\<close> is unfinished; when none is, it returns
  and leaves \<^verbatim>\<open>papers\<close> and \<^verbatim>\<open>articles\<close> empty and \<^verbatim>\<open>pool\<close> cleared.
\<close>

theorem join_active_batch:
  assumes "pool self = Some p"
  shows "join self =
           (if unfinished_tasks (tasks p) = 0
            then (Returned, [], self\<lparr>papers := [], articles := Some [], pool := None\<rparr>)
            else (Blocked, [], self))"
  using assms by (simp add: join_def wait_completion_def Queue_join_def)

text \<open>
  Three sources whose jobs have all ended: \<^verbatim>\<open>join\<close> returns and the lists are empty.
  With one job unfinished the caller waits.
\<close>

theorem join_active_batch_witness:
  "join \<lparr>papers = [1, 2, 3 :: nat], articles = Some ([] :: nat list),
          pool = Some \<lparr>tasks = \<lparr>maxsize = 3, pending = [], unfinished_tasks = 0\<rparr>,
                       workers = replicate 3 \<lparr>timeout = 5, phase = Running\<rparr>\<rparr>,
          config = \<lparr>thread_timeout_seconds = 5, max_number_threads = 10\<rparr>\<rparr>
     = (Returned, [],
        \<lparr>papers = [], articles = Some [], pool = None,
          config = \<lparr>thread_timeout_seconds = 5, max_number_threads = 10\<rparr>\<rparr>)
   \<and> fst (join \<lparr>papers = [1, 2, 3 :: nat], articles = Some ([] :: nat list),
          pool = Some \<lparr>tasks = \<lparr>maxsize = 3, pending = [], unfinished_tasks = 1\<rparr>,
                       workers = [\<lparr>timeout = 5, phase = Running\<rparr>, \<lparr>timeout = 5, phase = Executing (download_articles 3)\<rparr>,
                                  \<lparr>timeout = 5, phase = Stopped\<rparr>]\<rparr>,
          config = \<lparr>thread_timeout_seconds = 5, max_number_threads = 10\<rparr>\<rparr>) = Blocked"
proof -
  let ?p = "\<lparr>tasks = \<lparr>maxsize = 3, pending = [], unfinished_tasks = 0\<rparr>,
             workers = replicate 3 \<lparr>timeout = 5, phase = Running\<rparr>\<rparr> :: (nat, nat) job thread_pool"
  let ?self = "\<lparr>papers = [1, 2, 3 :: nat], articles = Some ([] :: nat list), pool = Some ?p,
                 config = \<lparr>thread_timeout_seconds = 5, max_number_threads = 10\<rparr>\<rparr>"
  let ?p' = "\<lparr>tasks = \<lparr>maxsize = 3, pending = [], unfinished_tasks = 1\<rparr>,
              workers = [\<lparr>timeout = 5, phase = Running\<rparr>, \<lparr>timeout = 5, phase = Executing (download_articles 3)\<rparr>,
                         \<lparr>timeout = 5, phase = Stopped\<rparr>]\<rparr> :: (nat, nat) job thread_pool"
  let ?self' = "\<lparr>papers = [1, 2, 3 :: nat], articles = Some ([] :: nat list), pool = Some ?p',
                  config = \<lparr>thread_timeout_seconds = 5, max_number_threads = 10\<rparr>\<rparr>"
  have h: "pool ?self = Some ?p" by simp
  have h': "pool ?self' = Some ?p'" by simp
  from join_active_batch [OF h] join_active_batch [OF h'] show ?thesis by simp
qed

text \<open>
  Claim C9. A \<^verbatim>\<open>join\<close> that ends with an error leaves \<^verbatim>\<open>papers\<close>, \<^verbatim>\<open>articles\<close> and
  \<^verbatim>\<open>pool\<close> as they were: both places that raise come before the three assignments.
\<close>

theorem join_error_keeps_state:
  assumes "join self = (Raised e, out, self')"
  shows "papers self' = papers self \<and> articles self' = articles self \<and> pool self' = pool self
         \<and> self' = self"
  using assms by (auto simp: join_def split: if_splits option.splits)

text \<open>
  A batch whose \<^verbatim>\<open>set_articles\<close> has failed: the list is stored, no pool exists, and the
  \<^verbatim>\<open>join\<close> that follows raises and keeps the list.
\<close>

theorem join_error_keeps_state_witness:
  "join \<lparr>papers = ([] :: nat list), articles = Some [1, 2, 3 :: nat], pool = None,
          config = \<lparr>thread_timeout_seconds = 1, max_number_threads = 10\<rparr>\<rparr>
     = (Raised AttributeError, [],
        \<lparr>papers = [], articles = Some [1, 2, 3], pool = None,
          config = \<lparr>thread_timeout_seconds = 1, max_number_threads = 10\<rparr>\<rparr>)"
proof -
  let ?self = "\<lparr>papers = ([] :: nat list), articles = Some [1, 2, 3 :: nat], pool = None,
                 config = \<lparr>thread_timeout_seconds = 1, max_number_threads = 10\<rparr>\<rparr>"
  have "fst (join ?self) = Raised AttributeError"
    by (simp add: join_def)
  then obtain out self' where h: "join ?self = (Raised AttributeError, out, self')"
    by (cases "join ?self") auto
  have o: "out = []" using h by (simp add: join_def)
  from join_error_keeps_state [OF h] h o show ?thesis by simp
qed

section \<open>A pool with no thread\<close>

text \<open>
  Claim C10. \<^verbatim>\<open>set_papers\<close> with an empty list makes \<^verbatim>\<open>ThreadPool(0, timeout)\<close>. Its
  queue has \<^verbatim>\<open>maxsize\<close> zero, which for \<^verbatim>\<open>queue.Queue\<close> means no bound: whatever is
  waiting in it, \<^verbatim>\<open>add_task\<close> puts the job and does not block.
\<close>

theorem thread_pool_zero_unbounded:
  "snd (set_papers self [] k)
     = self\<lparr>papers := [], pool := Some (ThreadPool 0 (thread_timeout_seconds (config self)))\<rparr>
   \<and> maxsize (tasks (ThreadPool 0 t)) = 0
   \<and> workers (ThreadPool 0 t) = []
   \<and> add_task ((ThreadPool 0 t)\<lparr>tasks := \<lparr>maxsize = 0, pending = xs, unfinished_tasks = u\<rparr>\<rparr>) j
       = Some ((ThreadPool 0 t)\<lparr>tasks := \<lparr>maxsize = 0, pending = xs @ [j], unfinished_tasks = Suc u\<rparr>\<rparr>)"
  by (simp add: set_papers_eq ThreadPool_def Queue_def add_task_def Queue_put_def full_def)

section \<open>Invariants of a run\<close>

text \<open>Replacing one worker changes the jobs in flight by what that worker is calling.\<close>

lemma in_flight_update:
  "i < length ws \<Longrightarrow>
   in_flight (ws[i := w]) + mset (taken (phase (ws ! i))) = in_flight ws + mset (taken (phase w))"
proof (induction ws arbitrary: i)
  case Nil
  then show ?case by simp
next
  case (Cons a ws)
  show ?case
  proof (cases i)
    case 0
    then show ?thesis by simp
  next
    case (Suc k)
    then have "k < length ws" using Cons.prems by simp
    from Cons.IH [OF this] Suc show ?thesis by (simp add: ac_simps)
  qed
qed

lemma in_flight_same:
  "i < length ws \<Longrightarrow> taken (phase (ws ! i)) = [] \<Longrightarrow> taken (phase w) = [] \<Longrightarrow>
   in_flight (ws[i := w]) = in_flight ws"
  using in_flight_update [of i ws w] by simp

lemma in_flight_take:
  "i < length ws \<Longrightarrow> taken (phase (ws ! i)) = [] \<Longrightarrow> phase w = Executing j \<Longrightarrow>
   in_flight (ws[i := w]) = add_mset j (in_flight ws)"
  using in_flight_update [of i ws w] by simp

lemma in_flight_drop:
  "i < length ws \<Longrightarrow> phase (ws ! i) = Executing j \<Longrightarrow> taken (phase w) = [] \<Longrightarrow>
   add_mset j (in_flight (ws[i := w])) = in_flight ws"
  using in_flight_update [of i ws w] by simp

lemma consistent_start: "consistent (start (ThreadPool n t) js)"
proof -
  have "in_flight (replicate k (Worker t :: 'a worker)) = {#}" for k
    by (induction k) (simp_all add: Worker_def)
  then show ?thesis
    by (simp add: consistent_def start_def ThreadPool_def Queue_def)
qed

lemma consistent_Put: "consistent s \<Longrightarrow> step Put s = Some s' \<Longrightarrow> consistent s'"
  by (auto simp: consistent_def add_task_def Queue_put_def split: list.splits option.splits if_splits)

lemma consistent_Join: "consistent s \<Longrightarrow> step Join s = Some s' \<Longrightarrow> consistent s'"
  by (auto simp: consistent_def wait_completion_def Queue_join_def split: if_splits)

lemma consistent_Poll: "consistent s \<Longrightarrow> step (Poll i) s = Some s' \<Longrightarrow> consistent s'"
  by (auto simp: consistent_def run_get_def Queue_get_def in_flight_same in_flight_take
           split: if_splits phase.splits list.splits)

lemma in_flight_member:
  "i < length ws \<Longrightarrow> phase (ws ! i) = Executing j \<Longrightarrow> j \<in># in_flight ws"
proof (induction ws arbitrary: i)
  case Nil
  then show ?case by simp
next
  case (Cons a ws)
  then show ?case by (cases i) auto
qed

lemma add_mset_sub: "add_mset j A = B \<Longrightarrow> A \<subseteq># B"
  by (auto simp: subseteq_mset_def)

lemma sub_add_mset: "A \<subseteq># B \<Longrightarrow> A \<subseteq># add_mset j B"
  by (auto simp: subseteq_mset_def le_SucI)

lemma executing_unfinished:
  assumes "consistent s" and "i < length (workers (tpool s))"
    and "phase (workers (tpool s) ! i) = Executing j"
  shows "0 < unfinished_tasks (tasks (tpool s))"
proof -
  have "in_flight (workers (tpool s)) \<noteq> {#}"
    using in_flight_member [OF assms(2,3)] by auto
  then have "0 < size (in_flight (workers (tpool s)))" by (simp add: nonempty_has_size)
  moreover have "size (mset (completed s) + in_flight (workers (tpool s))) \<le> size (mset (dequeued s))"
    using assms(1) by (intro size_mset_mono) (simp add: consistent_def)
  moreover have "length (dequeued s) \<le> length (submitted s)"
    using assms(1) by (metis consistent_def length_append le_add1)
  moreover have "unfinished_tasks (tasks (tpool s)) + length (completed s) = length (submitted s)"
    using assms(1) by (simp add: consistent_def)
  ultimately show ?thesis by simp
qed

lemma consistent_Finish:
  assumes "consistent s" and "step (Finish i r) s = Some s'"
  shows "consistent s'"
proof -
  from assms(2) obtain j where i: "i < length (workers (tpool s))"
    and ph: "phase (workers (tpool s) ! i) = Executing j"
    by (auto split: if_splits phase.splits)
  have pos: "0 < unfinished_tasks (tasks (tpool s))"
    by (rule executing_unfinished [OF assms(1) i ph])
  then have nj: "\<not> joined s" using assms(1) by (auto simp: consistent_def)
  let ?ws = "workers (tpool s)"
  show ?thesis
  proof (cases "r = RaisesBaseException")
    case True
    then have s': "s' = s\<lparr>tpool := \<lparr>tasks = tasks (tpool s), workers = ?ws[i := (?ws ! i)\<lparr>phase := Killed\<rparr>]\<rparr>\<rparr>"
      using assms(2) i ph by (auto simp: run_call_def)
    have "add_mset j (in_flight (?ws[i := (?ws ! i)\<lparr>phase := Killed\<rparr>])) = in_flight ?ws"
      by (rule in_flight_drop [OF i ph]) simp
    then have "in_flight (?ws[i := (?ws ! i)\<lparr>phase := Killed\<rparr>]) \<subseteq># in_flight ?ws"
      by (rule add_mset_sub)
    then have "mset (completed s) + in_flight (?ws[i := (?ws ! i)\<lparr>phase := Killed\<rparr>])
        \<subseteq># mset (completed s) + in_flight ?ws"
      by (rule subset_mset.add_left_mono)
    moreover have "mset (completed s) + in_flight ?ws \<subseteq># mset (dequeued s)"
      using assms(1) by (simp add: consistent_def)
    ultimately have "mset (completed s) + in_flight (?ws[i := (?ws ! i)\<lparr>phase := Killed\<rparr>]) \<subseteq># mset (dequeued s)"
      by (rule subset_mset.order_trans)
    then show ?thesis using assms(1) nj unfolding s' consistent_def by simp
  next
    case False
    let ?err = "if r = RaisesException then traces s @ [j] else traces s"
    let ?q = "(tasks (tpool s))\<lparr>unfinished_tasks := unfinished_tasks (tasks (tpool s)) - 1\<rparr>"
    from False pos have s': "s' = s\<lparr>tpool := \<lparr>tasks = ?q, workers = ?ws[i := (?ws ! i)\<lparr>phase := Running\<rparr>]\<rparr>,
        traces := ?err, completed := completed s @ [j]\<rparr>"
      using assms(2) i ph by (simp add: run_call_def Queue_task_done_def Let_def)
    have fl: "add_mset j (in_flight (?ws[i := (?ws ! i)\<lparr>phase := Running\<rparr>])) = in_flight ?ws"
      by (rule in_flight_drop [OF i ph]) simp
    have a: "mset (completed s @ [j]) + in_flight (?ws[i := (?ws ! i)\<lparr>phase := Running\<rparr>])
          = mset (completed s) + in_flight ?ws"
      by (simp add: fl [symmetric])
    have "mset (traces s) \<subseteq># mset (completed s)"
      using assms(1) by (simp add: consistent_def)
    then have b: "mset ?err \<subseteq># mset (completed s @ [j])"
      by (simp add: sub_add_mset)
    have c: "mset (completed s @ [j]) + in_flight (?ws[i := (?ws ! i)\<lparr>phase := Running\<rparr>])
          \<subseteq># mset (dequeued s)"
      unfolding a using assms(1) by (simp add: consistent_def)
    have u: "unfinished_tasks (tasks (tpool s)) + length (completed s) = length (submitted s)"
      using assms(1) unfolding consistent_def by blast
    have d: "unfinished_tasks (tasks (tpool s)) - 1 + length (completed s @ [j]) = length (submitted s)"
      using u pos by simp
    have e: "dequeued s @ pending (tasks (tpool s)) = submitted s"
      using assms(1) by (simp add: consistent_def)
    show ?thesis unfolding s' consistent_def using nj b c d e by simp
  qed
qed

lemma consistent_step: "consistent s \<Longrightarrow> step e s = Some s' \<Longrightarrow> consistent s'"
  by (cases e) (auto intro: consistent_Put consistent_Poll consistent_Finish consistent_Join)

lemma consistent_exec: "consistent s \<Longrightarrow> exec evs s = Some s' \<Longrightarrow> consistent s'"
proof (induction evs arbitrary: s)
  case Nil
  then show ?case by simp
next
  case (Cons e evs)
  then show ?case by (auto split: option.splits dest: consistent_step)
qed

text \<open>The main thread submits the jobs of its list, in order, and nothing else.\<close>

lemma plan_step: "step e s = Some s' \<Longrightarrow> submitted s' @ todo s' = submitted s @ todo s"
  by (cases e) (auto split: list.splits option.splits if_splits phase.splits prod.splits)

lemma plan_exec: "exec evs s = Some s' \<Longrightarrow> submitted s' @ todo s' = submitted s @ todo s"
proof (induction evs arbitrary: s)
  case Nil
  then show ?case by simp
next
  case (Cons e evs)
  then show ?case by (auto split: option.splits dest: plan_step)
qed

lemma within_bound_start: "within_bound n (start (ThreadPool n t) js)"
  by (simp add: within_bound_def start_def ThreadPool_def Queue_def)

lemma within_bound_step: "within_bound n s \<Longrightarrow> step e s = Some s' \<Longrightarrow> within_bound n s'"
  by (cases e)
     (auto simp: within_bound_def add_task_def Queue_put_def full_def run_get_def Queue_get_def
                 run_call_def Queue_task_done_def Let_def
           split: list.splits option.splits if_splits phase.splits sum.splits)

lemma within_bound_exec: "within_bound n s \<Longrightarrow> exec evs s = Some s' \<Longrightarrow> within_bound n s'"
proof (induction evs arbitrary: s)
  case Nil
  then show ?case by simp
next
  case (Cons e evs)
  then show ?case by (auto split: option.splits dest: within_bound_step)
qed

lemma stopped_step:
  assumes "i < length (workers (tpool s))" and "phase (workers (tpool s) ! i) = Stopped"
    and "step e s = Some s'"
  shows "i < length (workers (tpool s')) \<and> phase (workers (tpool s') ! i) = Stopped
         \<and> e \<noteq> Poll i \<and> (\<forall>r. e \<noteq> Finish i r)"
proof (cases e)
  case Put
  then show ?thesis using assms
    by (auto simp: add_task_def split: list.splits option.splits)
next
  case (Poll k)
  then show ?thesis using assms
    by (cases "k = i") (auto split: if_splits phase.splits prod.splits)
next
  case (Finish k r)
  then show ?thesis using assms
    by (cases "k = i") (auto split: if_splits phase.splits prod.splits)
next
  case Join
  then show ?thesis using assms by (auto split: if_splits)
qed

lemma stopped_exec:
  assumes "i < length (workers (tpool s))" and "phase (workers (tpool s) ! i) = Stopped"
    and "exec evs s = Some s'"
  shows "i < length (workers (tpool s')) \<and> phase (workers (tpool s') ! i) = Stopped
         \<and> Poll i \<notin> set evs \<and> (\<forall>r. Finish i r \<notin> set evs)"
  using assms
proof (induction evs arbitrary: s)
  case Nil
  then show ?case by simp
next
  case (Cons e evs)
  from Cons.prems(3) obtain s1 where s1: "step e s = Some s1" and r: "exec evs s1 = Some s'"
    by (auto split: option.splits)
  from stopped_step [OF Cons.prems(1,2) s1]
  have a: "i < length (workers (tpool s1))" "phase (workers (tpool s1) ! i) = Stopped"
    and b: "e \<noteq> Poll i" "\<forall>r. e \<noteq> Finish i r" by auto
  from Cons.IH [OF a r] b show ?case by auto
qed

lemma sub_size_eq: "A \<subseteq># B \<Longrightarrow> size B \<le> size A \<Longrightarrow> A = B"
proof -
  assume "A \<subseteq># B" and le: "size B \<le> size A"
  then obtain C where B: "B = A + C" by (auto simp: mset_subset_eq_exists_conv)
  with le have "size C = 0" by simp
  then show ?thesis using B by simp
qed

text \<open>
  A pool that is unbounded, or whose bound is at least the number of jobs of the
  batch, never makes the main thread wait in \<^verbatim>\<open>add_task\<close>, whatever the workers have
  done so far. This is the case of \<^verbatim>\<open>set_papers\<close>.
\<close>

lemma submit_never_waits:
  assumes "exec evs (start (ThreadPool n t) jobs) = Some s"
    and "n \<le> 0 \<or> int (length jobs) \<le> n"
    and "todo s \<noteq> []"
  shows "step Put s \<noteq> None"
proof -
  have c: "consistent s" by (rule consistent_exec [OF consistent_start assms(1)])
  have b: "within_bound n s" by (rule within_bound_exec [OF within_bound_start assms(1)])
  have p: "submitted s @ todo s = jobs" using plan_exec [OF assms(1)] by (simp add: start_def)
  have f: "dequeued s @ pending (tasks (tpool s)) = submitted s" using c by (simp add: consistent_def)
  have "length (pending (tasks (tpool s))) \<le> length (submitted s)"
    by (metis f length_append le_add2)
  moreover have "length (submitted s) < length jobs"
    using p assms(3) by (metis length_append length_greater_0_conv less_add_same_cancel1)
  ultimately have "length (pending (tasks (tpool s))) < length jobs" by simp
  then have "\<not> full (tasks (tpool s))"
    using assms(2) b by (auto simp: full_def within_bound_def)
  then show ?thesis
    using assms(3) by (auto simp: add_task_def Queue_put_def split: list.splits)
qed

section \<open>The completion barrier\<close>

text \<open>
  Claim C7. Take any run of a pool made by \<^verbatim>\<open>ThreadPool(n, t)\<close> in which the main
  thread submits the jobs of a batch and then calls \<^verbatim>\<open>wait_completion\<close>. If
  \<^verbatim>\<open>wait_completion\<close> has returned, then every job of the batch has been submitted, and
  the jobs whose call has ended (by returning or by an exception that the worker
  caught) are the jobs of the batch, each as often as it was submitted; no worker is
  calling a job and no job waits in the queue. The jobs that raised are among them,
  however many they are.
\<close>

theorem wait_completion_barrier:
  assumes "exec evs (start (ThreadPool n t) jobs) = Some s" and "joined s"
  shows "mset (completed s) = mset jobs \<and> in_flight (workers (tpool s)) = {#}
         \<and> pending (tasks (tpool s)) = [] \<and> todo s = [] \<and> submitted s = jobs
         \<and> mset (traces s) \<subseteq># mset (completed s)"
proof -
  have i: "consistent s" by (rule consistent_exec [OF consistent_start assms(1)])
  have "submitted s @ todo s = jobs" using plan_exec [OF assms(1)] by (simp add: start_def)
  moreover have td: "todo s = []" and u: "unfinished_tasks (tasks (tpool s)) = 0"
    using i assms(2) by (simp_all add: consistent_def)
  ultimately have sub: "submitted s = jobs" by simp
  have fifo: "dequeued s @ pending (tasks (tpool s)) = submitted s"
    and fl: "mset (completed s) + in_flight (workers (tpool s)) \<subseteq># mset (dequeued s)"
    and cnt: "unfinished_tasks (tasks (tpool s)) + length (completed s) = length (submitted s)"
    and tr: "mset (traces s) \<subseteq># mset (completed s)"
    using i by (simp_all add: consistent_def)
  have len: "length (dequeued s) + length (pending (tasks (tpool s))) = length (completed s)"
    using fifo cnt u by (metis add_0 length_append)
  have "size (mset (dequeued s)) \<le> size (mset (completed s) + in_flight (workers (tpool s)))"
    using len by simp
  with fl have eq: "mset (completed s) + in_flight (workers (tpool s)) = mset (dequeued s)"
    by (rule sub_size_eq)
  then have "length (completed s) + size (in_flight (workers (tpool s))) = length (dequeued s)"
    by (metis size_mset size_union)
  with len have "size (in_flight (workers (tpool s))) = 0"
    and "length (pending (tasks (tpool s))) = 0" by arith+
  then have nf: "in_flight (workers (tpool s)) = {#}" and pe: "pending (tasks (tpool s)) = []"
    by simp_all
  from eq nf pe fifo sub have "mset (completed s) = mset jobs" by simp
  with nf pe td sub tr show ?thesis by simp
qed

text \<open>
  Two workers, two jobs; the second job raises. \<^verbatim>\<open>wait_completion\<close> returns after both
  calls have ended.
\<close>

theorem wait_completion_barrier_witness:
  "exec [Put, Put, Poll 0, Poll 1, Finish 1 RaisesException, Finish 0 Returns, Join]
        (start (ThreadPool 2 5) [10, 20 :: nat])
     = Some \<lparr>tpool = \<lparr>tasks = \<lparr>maxsize = 2, pending = [], unfinished_tasks = 0\<rparr>,
                        workers = [\<lparr>timeout = 5, phase = Running\<rparr>, \<lparr>timeout = 5, phase = Running\<rparr>]\<rparr>,
             todo = [], joined = True, traces = [20],
             submitted = [10, 20], dequeued = [10, 20], completed = [20, 10]\<rparr>
   \<and> mset [20, 10 :: nat] = mset [10, 20]"
proof -
  let ?s = "\<lparr>tpool = \<lparr>tasks = \<lparr>maxsize = 2, pending = [], unfinished_tasks = 0\<rparr>,
                        workers = [\<lparr>timeout = 5, phase = Running\<rparr>, \<lparr>timeout = 5, phase = Running\<rparr>]\<rparr>,
             todo = [], joined = True, traces = [20],
             submitted = [10, 20], dequeued = [10, 20], completed = [20, 10 :: nat]\<rparr>"
  have h: "exec [Put, Put, Poll 0, Poll 1, Finish 1 RaisesException, Finish 0 Returns, Join]
        (start (ThreadPool 2 5) [10, 20 :: nat]) = Some ?s"
    by (simp add: evals)
  have j: "joined ?s" by simp
  from wait_completion_barrier [OF h j] h show ?thesis by simp
qed

section \<open>A job that raises\<close>

text \<open>
  Claim C4. In any run of a pool, when the job \<open>j\<close> that worker \<open>i\<close> is calling raises
  an \<^verbatim>\<open>Exception\<close>, the worker catches it: the trace of \<open>j\<close> is written to the error
  stream, \<^verbatim>\<open>task_done\<close> takes one off \<^verbatim>\<open>unfinished_tasks\<close> (which is positive, so
  \<^verbatim>\<open>task_done\<close> does not raise), and the worker is back in its loop. The main thread
  is untouched: nothing is raised in \<^verbatim>\<open>wait_completion\<close> or \<^verbatim>\<open>join\<close>.
\<close>

theorem worker_swallows_exception:
  assumes "exec evs (start (ThreadPool n t) jobs) = Some s"
    and "i < length (workers (tpool s))"
    and "phase (workers (tpool s) ! i) = Executing j"
  shows "step (Finish i RaisesException) s =
           Some (s\<lparr>tpool := \<lparr>tasks = (tasks (tpool s))\<lparr>unfinished_tasks := unfinished_tasks (tasks (tpool s)) - 1\<rparr>,
                               workers = (workers (tpool s))[i := (workers (tpool s) ! i)\<lparr>phase := Running\<rparr>]\<rparr>,
                    traces := traces s @ [j],
                    completed := completed s @ [j]\<rparr>)
         \<and> 0 < unfinished_tasks (tasks (tpool s))"
proof -
  have "consistent s" by (rule consistent_exec [OF consistent_start assms(1)])
  then have "0 < unfinished_tasks (tasks (tpool s))"
    using assms(2,3) by (rule executing_unfinished)
  then show ?thesis using assms(2,3)
    by (simp add: run_call_def Queue_task_done_def)
qed

text \<open>One worker whose only job raises.\<close>

theorem worker_swallows_exception_witness:
  "step (Finish 0 RaisesException)
     \<lparr>tpool = \<lparr>tasks = \<lparr>maxsize = 1, pending = [], unfinished_tasks = 1\<rparr>,
                 workers = [\<lparr>timeout = 5, phase = Executing (7 :: nat)\<rparr>]\<rparr>,
       todo = [], joined = False, traces = [], submitted = [7], dequeued = [7], completed = []\<rparr>
   = Some \<lparr>tpool = \<lparr>tasks = \<lparr>maxsize = 1, pending = [], unfinished_tasks = 0\<rparr>,
                 workers = [\<lparr>timeout = 5, phase = Running\<rparr>]\<rparr>,
       todo = [], joined = False, traces = [7], submitted = [7], dequeued = [7], completed = [7]\<rparr>"
proof -
  let ?s = "\<lparr>tpool = \<lparr>tasks = \<lparr>maxsize = 1, pending = [], unfinished_tasks = 1\<rparr>,
                 workers = [\<lparr>timeout = 5, phase = Executing (7 :: nat)\<rparr>]\<rparr>,
       todo = [], joined = False, traces = [], submitted = [7], dequeued = [7], completed = []\<rparr>"
  have h: "exec [Put, Poll 0] (start (ThreadPool 1 5) [7 :: nat]) = Some ?s"
    by (simp add: evals)
  have a: "0 < length (workers (tpool ?s))" by simp
  have b: "phase (workers (tpool ?s) ! 0) = Executing 7" by simp
  from worker_swallows_exception [OF h a b] show ?thesis by simp
qed

text \<open>
  What \<^verbatim>\<open>except Exception\<close> does not catch ends the thread before \<^verbatim>\<open>task_done\<close>: the
  task stays unfinished.
\<close>

lemma worker_killed_by_base_exception:
  assumes "i < length (workers (tpool s))"
    and "phase (workers (tpool s) ! i) = Executing j"
  shows "step (Finish i RaisesBaseException) s =
           Some (s\<lparr>tpool := \<lparr>tasks = tasks (tpool s),
                               workers = (workers (tpool s))[i := (workers (tpool s) ! i)\<lparr>phase := Killed\<rparr>]\<rparr>\<rparr>)"
  using assms by (simp add: run_call_def)

section \<open>A worker that times out\<close>

text \<open>
  Claim C5. A worker whose \<^verbatim>\<open>get\<close> ends with no job in the queue leaves its loop: it
  is \<open>Stopped\<close>. However the run goes on from there, the worker stays \<open>Stopped\<close> and
  no event of it occurs again: it never polls the queue and never calls a job. The
  timeout of a worker is a duration, hence not negative.
\<close>

theorem stopped_is_terminal:
  assumes "i < length (workers (tpool s))"
    and "phase (workers (tpool s) ! i) = Running"
    and "pending (tasks (tpool s)) = []"
    and "0 \<le> timeout (workers (tpool s) ! i)"
  shows "step (Poll i) s =
           Some (s\<lparr>tpool := \<lparr>tasks = tasks (tpool s),
                               workers = (workers (tpool s))[i := (workers (tpool s) ! i)\<lparr>phase := Stopped\<rparr>]\<rparr>\<rparr>)
         \<and> (\<forall>evs s'. exec (Poll i # evs) s = Some s' \<longrightarrow>
               phase (workers (tpool s') ! i) = Stopped
               \<and> Poll i \<notin> set evs \<and> (\<forall>r. Finish i r \<notin> set evs))"
proof -
  let ?s1 = "s\<lparr>tpool := \<lparr>tasks = tasks (tpool s),
                         workers = (workers (tpool s))[i := (workers (tpool s) ! i)\<lparr>phase := Stopped\<rparr>]\<rparr>\<rparr>"
  have st: "step (Poll i) s = Some ?s1"
    using assms by (simp add: run_get_def Queue_get_def)
  have a: "i < length (workers (tpool ?s1))"
    using assms(1) by simp
  have b: "phase (workers (tpool ?s1) ! i) = Stopped"
    using assms(1) by simp
  have "phase (workers (tpool s') ! i) = Stopped \<and> Poll i \<notin> set evs \<and> (\<forall>r. Finish i r \<notin> set evs)"
    if "exec evs ?s1 = Some s'" for evs s'
    using stopped_exec [OF a b that] by blast
  with st show ?thesis by simp
qed

text \<open>
  A worker that polls before the main thread has put its job: it stops, the job is put
  afterwards, and the worker does not take it.
\<close>

theorem stopped_is_terminal_witness:
  "exec [Poll 0, Put] (start (ThreadPool 1 5) [7 :: nat])
     = Some \<lparr>tpool = \<lparr>tasks = \<lparr>maxsize = 1, pending = [7], unfinished_tasks = 1\<rparr>,
                        workers = [\<lparr>timeout = 5, phase = Stopped\<rparr>]\<rparr>,
             todo = [], joined = False, traces = [],
             submitted = [7], dequeued = [], completed = []\<rparr>
   \<and> exec [Poll 0, Put, Poll 0] (start (ThreadPool 1 5) [7 :: nat]) = None"
proof -
  let ?s = "start (ThreadPool 1 5) [7 :: nat]"
  have a: "0 < length (workers (tpool ?s))" by (simp add: evals)
  have b: "phase (workers (tpool ?s) ! 0) = Running" by (simp add: evals)
  have c: "pending (tasks (tpool ?s)) = []" by (simp add: evals)
  have d: "0 \<le> timeout (workers (tpool ?s) ! 0)" by (simp add: evals)
  have e: "exec [Poll 0, Put] ?s
     = Some \<lparr>tpool = \<lparr>tasks = \<lparr>maxsize = 1, pending = [7], unfinished_tasks = 1\<rparr>,
                        workers = [\<lparr>timeout = 5, phase = Stopped\<rparr>]\<rparr>,
             todo = [], joined = False, traces = [],
             submitted = [7], dequeued = [], completed = []\<rparr>"
    by (simp add: evals)
  from stopped_is_terminal [OF a b c d]
  have "\<forall>evs s'. exec (Poll 0 # evs) ?s = Some s' \<longrightarrow> Poll 0 \<notin> set evs" by blast
  then have "exec (Poll 0 # [Put, Poll 0]) ?s = None"
    by (cases "exec (Poll 0 # [Put, Poll 0]) ?s") auto
  with e show ?thesis by simp
qed

section \<open>The bound of the task channel\<close>

text \<open>
  Claim C6 says that the channel of every pool holds at most \<^verbatim>\<open>thread_count\<close> jobs. A
  pool with no thread is a pool too, and its channel takes any number of jobs: two
  jobs wait in the channel of \<^verbatim>\<open>ThreadPool(0, 5)\<close> after two puts.
\<close>

theorem channel_zero_counterexample:
  "length (workers (ThreadPool 0 5 :: nat thread_pool)) = 0 \<and>
   map_option (length \<circ> pending \<circ> tasks \<circ> tpool) (exec [Put, Put] (start (ThreadPool 0 5) [10, 20 :: nat]))
     = Some 2"
  by (simp add: evals)

text \<open>
  Claim C6, for a pool with at least one thread. In any run of a pool made by
  \<^verbatim>\<open>ThreadPool(n, t)\<close> with \<open>0 < n\<close>, the channel is bounded by \<open>n\<close>, there are \<open>n\<close>
  workers, and at most \<open>n\<close> jobs wait. The channel is first in, first out and drops
  nothing: the jobs taken so far followed by the jobs waiting are the jobs put so
  far, which are a prefix of the batch. The main thread cannot put exactly when it has
  nothing left to put or when \<open>n\<close> jobs wait; while the channel is full the put has no
  effect at all, and it goes through as soon as fewer than \<open>n\<close> jobs wait.
\<close>

theorem channel_bounded_fifo:
  assumes "0 < n" and "exec evs (start (ThreadPool n t) jobs) = Some s"
  shows "maxsize (tasks (tpool s)) = n \<and> int (length (workers (tpool s))) = n
         \<and> int (length (pending (tasks (tpool s)))) \<le> n
         \<and> dequeued s @ pending (tasks (tpool s)) = submitted s
         \<and> submitted s @ todo s = jobs
         \<and> (step Put s = None) = (todo s = [] \<or> int (length (pending (tasks (tpool s)))) = n)"
proof -
  have i: "consistent s" by (rule consistent_exec [OF consistent_start assms(2)])
  have b: "within_bound n s" by (rule within_bound_exec [OF within_bound_start assms(2)])
  have p: "submitted s @ todo s = jobs" using plan_exec [OF assms(2)] by (simp add: start_def)
  have f: "dequeued s @ pending (tasks (tpool s)) = submitted s" using i by (simp add: consistent_def)
  have m: "maxsize (tasks (tpool s)) = n" and w: "int (length (workers (tpool s))) = n"
    and l: "int (length (pending (tasks (tpool s)))) \<le> n"
    using b assms(1) by (simp_all add: within_bound_def)
  have "(step Put s = None) = (todo s = [] \<or> int (length (pending (tasks (tpool s)))) = n)"
    using m l assms(1)
    by (auto simp: add_task_def Queue_put_def full_def split: list.splits option.splits)
  with m w l f p show ?thesis by simp
qed

text \<open>
  Two threads and three jobs: after two puts the channel is full and the third put
  waits; once a worker has taken a job the put goes through, and the jobs keep their
  order.
\<close>

theorem channel_bounded_fifo_witness:
  "(0 :: int) < 2
   \<and> exec [Put, Put] (start (ThreadPool 2 5) [10, 20, 30 :: nat])
       = Some \<lparr>tpool = \<lparr>tasks = \<lparr>maxsize = 2, pending = [10, 20], unfinished_tasks = 2\<rparr>,
                          workers = [\<lparr>timeout = 5, phase = Running\<rparr>, \<lparr>timeout = 5, phase = Running\<rparr>]\<rparr>,
               todo = [30], joined = False, traces = [],
               submitted = [10, 20], dequeued = [], completed = []\<rparr>
   \<and> step Put \<lparr>tpool = \<lparr>tasks = \<lparr>maxsize = 2, pending = [10, 20], unfinished_tasks = 2\<rparr>,
                          workers = [\<lparr>timeout = 5, phase = Running\<rparr>, \<lparr>timeout = 5, phase = Running\<rparr>]\<rparr>,
               todo = [30 :: nat], joined = False, traces = [],
               submitted = [10, 20], dequeued = [], completed = []\<rparr> = None
   \<and> exec [Put, Put, Poll 1, Put] (start (ThreadPool 2 5) [10, 20, 30 :: nat])
       = Some \<lparr>tpool = \<lparr>tasks = \<lparr>maxsize = 2, pending = [20, 30], unfinished_tasks = 3\<rparr>,
                          workers = [\<lparr>timeout = 5, phase = Running\<rparr>, \<lparr>timeout = 5, phase = Executing 10\<rparr>]\<rparr>,
               todo = [], joined = False, traces = [],
               submitted = [10, 20, 30], dequeued = [10], completed = []\<rparr>"
proof -
  let ?s = "\<lparr>tpool = \<lparr>tasks = \<lparr>maxsize = 2, pending = [10, 20], unfinished_tasks = 2\<rparr>,
                       workers = [\<lparr>timeout = 5, phase = Running\<rparr>, \<lparr>timeout = 5, phase = Running\<rparr>]\<rparr>,
            todo = [30 :: nat], joined = False, traces = [],
            submitted = [10, 20], dequeued = [], completed = []\<rparr>"
  have h: "(0 :: int) < 2" by simp
  have e: "exec [Put, Put] (start (ThreadPool 2 5) [10, 20, 30 :: nat]) = Some ?s"
    by (simp add: evals)
  have g: "exec [Put, Put, Poll 1, Put] (start (ThreadPool 2 5) [10, 20, 30 :: nat])
       = Some \<lparr>tpool = \<lparr>tasks = \<lparr>maxsize = 2, pending = [20, 30], unfinished_tasks = 3\<rparr>,
                          workers = [\<lparr>timeout = 5, phase = Running\<rparr>, \<lparr>timeout = 5, phase = Executing 10\<rparr>]\<rparr>,
               todo = [], joined = False, traces = [],
               submitted = [10, 20, 30], dequeued = [10], completed = []\<rparr>"
    by (simp add: evals)
  from channel_bounded_fifo [OF h e]
  have "(step Put ?s = None) = (todo ?s = [] \<or> int (length (pending (tasks (tpool ?s)))) = 2)"
    by blast
  then have "step Put ?s = None" by simp
  with h e g show ?thesis by simp
qed

end
